theory Spec2Isabelle
  imports Main
begin

section \<open>Data model\<close>

text \<open>
  A JavaScript number as far as the hierarchy engine needs it: either \<open>NaN\<close> or an
  integer value (the result of \<open>parseInt\<close>). Rounding of integers beyond \<open>2^53\<close> is
  not modelled.
\<close>

datatype jsnum = NaN | Num int

text \<open>
  \<open>interface HPONode { id; name; parent_id: string | null; level; has_children }\<close>.
  The field \<open>id\<close> is called \<open>node_id\<close> here (\<open>id\<close> is the identity function of HOL);
  \<open>parent_id = None\<close> is JavaScript's \<open>null\<close>.
\<close>

record HPONode =
  node_id :: string
  name :: string
  parent_id :: "string option"
  level :: jsnum
  has_children :: bool

text \<open>
  Truthiness of a value of type \<open>string | null | undefined\<close>: \<open>null\<close>, \<open>undefined\<close>
  and the empty string are falsy.
\<close>

definition truthy :: "string option \<Rightarrow> bool" where
  "truthy v = (case v of None \<Rightarrow> False | Some s \<Rightarrow> s \<noteq> [])"

section \<open>Record normalizer\<close>

text \<open>
  A row object as the CSV parser (run with \<open>header: true\<close>) delivers it: the columns the
  component reads, each a string, or \<open>undefined\<close> (\<open>None\<close>) when the row has no such field.
\<close>

record CSVRow =
  TERM_ID :: "string option"
  TERM_FULL_NAME :: "string option"
  PARENT_ID :: "string option"
  LEVEL :: "string option"

text \<open>
  \<open>String.prototype.trim\<close>. Characters are bytes here, so only the white space and line
  terminators of ASCII (TAB, LF, VT, FF, CR, SPACE) are covered.
\<close>

definition isWhiteSpace :: "char \<Rightarrow> bool" where
  "isWhiteSpace c = (c \<in> set [CHR 0x09, CHR 0x0A, CHR 0x0B, CHR 0x0C, CHR 0x0D, CHR 0x20])"

definition trim :: "string \<Rightarrow> string" where
  "trim s = rev (dropWhile isWhiteSpace (rev (dropWhile isWhiteSpace s)))"

text \<open>
  \<open>stripQuotes\<close>: \<open>if (!str) return ''\<close>, else
  \<open>str.replace(/^"+|"+$/g, '').trim()\<close>: the run of double quotes at the start and the
  run at the end are removed, then the result is trimmed.
\<close>

definition stripQuotes :: "string option \<Rightarrow> string" where
  "stripQuotes str =
     (if \<not> truthy str then []
      else trim (rev (dropWhile (\<lambda>c. c = CHR 0x22) (rev (dropWhile (\<lambda>c. c = CHR 0x22) (the str))))))"

text \<open>
  \<open>parseInt(input, 10)\<close>: leading white space is skipped, one sign is read, then the
  longest run of decimal digits; with no digit the result is \<open>NaN\<close>. An \<open>undefined\<close>
  input is converted to the string \<open>undefined\<close>, which has no digit.
\<close>

definition isDigit :: "char \<Rightarrow> bool" where
  "isDigit c = (c \<in> set ''0123456789'')"

definition digitValue :: "char \<Rightarrow> int" where
  "digitValue c = int (length (takeWhile (\<lambda>d. d \<noteq> c) ''0123456789''))"

definition parseInt :: "string option \<Rightarrow> jsnum" where
  "parseInt input =
     (case input of
        None \<Rightarrow> NaN
      | Some str \<Rightarrow>
          let s = dropWhile isWhiteSpace str;
              sign = (if take 1 s = ''-'' then - 1 else 1);
              s1 = (if take 1 s = ''-'' \<or> take 1 s = ''+'' then drop 1 s else s);
              digits = takeWhile isDigit s1
          in if digits = [] then NaN
             else Num (sign * foldl (\<lambda>acc c. 10 * acc + digitValue c) 0 digits))"

text \<open>\<open>String.prototype.startsWith\<close>.\<close>

definition startsWith :: "string \<Rightarrow> string \<Rightarrow> bool" where
  "startsWith s searchString = (take (length searchString) s = searchString)"

text \<open>
  The row filter of \<open>fetchData\<close>:
  \<open>row.TERM_ID && row.TERM_FULL_NAME && !row.TERM_ID.startsWith(']')\<close>, on the raw fields.
\<close>

definition keepRow :: "CSVRow \<Rightarrow> bool" where
  "keepRow row =
     (truthy (TERM_ID row) \<and> truthy (TERM_FULL_NAME row) \<and> \<not> startsWith (the (TERM_ID row)) '']'')"

text \<open>The row mapping of \<open>fetchData\<close>.\<close>

definition toNode :: "CSVRow \<Rightarrow> HPONode" where
  "toNode row =
     \<lparr>node_id = stripQuotes (TERM_ID row),
      name = stripQuotes (TERM_FULL_NAME row),
      parent_id = (if truthy (PARENT_ID row) then Some (stripQuotes (PARENT_ID row)) else None),
      level = parseInt (LEVEL row),
      has_children = False\<rparr>"

text \<open>
  \<open>processedNodes = data.filter(...).map(...)\<close>. (\<open>fetchData\<close> afterwards sets
  \<open>has_children\<close> on the records that another record names as its parent and stores the
  list as \<open>nodes\<close>; no other field changes.)
\<close>

definition processedNodes :: "CSVRow list \<Rightarrow> HPONode list" where
  "processedNodes data = map toNode (filter keepRow data)"


section \<open>Hierarchy index\<close>

text \<open>
  \<open>nodesByParent\<close>: a \<open>Map<string | null, HPONode[]>\<close> filled by one pass over
  \<open>nodes\<close>; each node is appended to the array stored under its own \<open>parent_id\<close>
  (\<open>map.get(node.parent_id) || []\<close>, then \<open>push\<close>, then \<open>map.set\<close>).
\<close>

definition nodesByParent :: "HPONode list \<Rightarrow> (string option \<rightharpoonup> HPONode list)" where
  "nodesByParent nodes =
     fold (\<lambda>node m.
             m(parent_id node \<mapsto>
                 (case m (parent_id node) of None \<Rightarrow> [] | Some parentNodes \<Rightarrow> parentNodes) @ [node]))
          nodes Map.empty"

text \<open>The recurring expression \<open>nodesByParent.get(key) || []\<close>.\<close>

definition childrenOf :: "HPONode list \<Rightarrow> string option \<Rightarrow> HPONode list" where
  "childrenOf nodes k = (case nodesByParent nodes k of None \<Rightarrow> [] | Some cs \<Rightarrow> cs)"

text \<open>\<open>nodesById\<close>: a \<open>Map<string, HPONode>\<close>; a later node with the same id overwrites.\<close>

definition nodesById :: "HPONode list \<Rightarrow> (string \<rightharpoonup> HPONode)" where
  "nodesById nodes = fold (\<lambda>node m. m(node_id node \<mapsto> node)) nodes Map.empty"

text \<open>
  The children relation of the index: \<open>c\<close> is a child of \<open>p\<close> when a node with id \<open>c\<close>
  is stored in \<open>nodesByParent.get(p)\<close>.
\<close>

definition childRel :: "HPONode list \<Rightarrow> (string \<times> string) set" where
  "childRel nodes = {(p, c). c \<in> node_id ` set (childrenOf nodes (Some p))}"

section \<open>Selection engine\<close>

text \<open>
  The loop of \<open>getDescendants\<close>. \<open>stack\<close> is the JavaScript array: \<open>pop\<close> takes its last
  element, \<open>push\<close> appends. \<open>visited\<close> is a \<open>Set<string>\<close> used for membership only.
\<close>

function getDescendants_loop ::
  "HPONode list \<Rightarrow> string \<Rightarrow> string list \<Rightarrow> string set \<Rightarrow> string list \<Rightarrow> string list" where
  "getDescendants_loop nodes nodeId stack visited descendants =
     (if stack = [] then descendants
      else
        let currentId = last stack; stack1 = butlast stack in
        if currentId \<in> visited then getDescendants_loop nodes nodeId stack1 visited descendants
        else
          let visited1 = insert currentId visited;
              descendants1 = (if currentId \<noteq> nodeId then descendants @ [currentId] else descendants);
              children = childrenOf nodes (Some currentId);
              stack2 = stack1 @ map node_id (filter (\<lambda>child. node_id child \<notin> visited1) children)
          in getDescendants_loop nodes nodeId stack2 visited1 descendants1)"
  by pat_completeness auto

lemma nodesByParent_fold_aux:
  "fold (\<lambda>node m.
           m(parent_id node \<mapsto>
               (case m (parent_id node) of None \<Rightarrow> [] | Some parentNodes \<Rightarrow> parentNodes) @ [node]))
        nodes m0 k =
   (if \<exists>n \<in> set nodes. parent_id n = k
    then Some ((case m0 k of None \<Rightarrow> [] | Some ps \<Rightarrow> ps) @ filter (\<lambda>n. parent_id n = k) nodes)
    else m0 k)"
  by (induction nodes arbitrary: m0) auto

lemma childrenOf_filter: "childrenOf nodes k = filter (\<lambda>n. parent_id n = k) nodes"
proof (cases "\<exists>n \<in> set nodes. parent_id n = k")
  case True
  then show ?thesis
    by (simp add: childrenOf_def nodesByParent_def nodesByParent_fold_aux)
next
  case False
  then have "filter (\<lambda>n. parent_id n = k) nodes = []"
    by (auto simp: filter_empty_conv)
  with False show ?thesis
    by (simp add: childrenOf_def nodesByParent_def nodesByParent_fold_aux)
qed

lemma childrenOf_subset: "set (childrenOf nodes k) \<subseteq> set nodes"
  by (simp add: childrenOf_filter)

termination getDescendants_loop
proof (relation "inv_image (less_than <*lex*> less_than)
    (\<lambda>(nodes, nodeId, stack, visited, descendants).
        (card ((node_id ` set nodes \<union> set stack) - visited), length stack))", goal_cases)
  case 1
  show ?case by (intro wf_inv_image wf_lex_prod wf_less_than)
next
  case (2 nodes nodeId stack visited descendants currentId stack1)
  then have "set stack1 \<subseteq> set stack"
    by (auto dest: in_set_butlastD)
  then have "card ((node_id ` set nodes \<union> set stack1) - visited)
      \<le> card ((node_id ` set nodes \<union> set stack) - visited)"
    by (intro card_mono) auto
  with 2 show ?case by (auto simp: less_Suc_eq_le)
next
  case (3 nodes nodeId stack visited descendants currentId stack1 visited1 descendants1 children stack2)
  have sub1: "set stack1 \<subseteq> set stack"
    using 3 by (auto dest: in_set_butlastD)
  have cur: "currentId \<in> set stack" "currentId \<notin> visited"
    using 3 by auto
  have "set stack2 \<subseteq> node_id ` set nodes \<union> set stack"
    using 3 sub1 childrenOf_subset [of nodes "Some currentId"] by auto
  then have "(node_id ` set nodes \<union> set stack2) - visited1
      \<subset> (node_id ` set nodes \<union> set stack) - visited"
    using cur 3 by auto
  then have "card ((node_id ` set nodes \<union> set stack2) - visited1)
      < card ((node_id ` set nodes \<union> set stack) - visited)"
    by (intro psubset_card_mono) auto
  then show ?case by simp
qed

declare getDescendants_loop.simps [simp del]

definition getDescendants :: "HPONode list \<Rightarrow> string \<Rightarrow> string list" where
  "getDescendants nodes nodeId = getDescendants_loop nodes nodeId [nodeId] {} []"

text \<open>
  \<open>selectedNodes\<close> is a JavaScript \<open>Set<string>\<close>. Its iteration order is the
  insertion order, which the serialised output depends on, so it is a list without
  repetitions: \<open>add\<close> appends an element that is not there yet, \<open>delete\<close> removes it,
  \<open>has\<close> is membership.
\<close>

definition Set_add :: "string \<Rightarrow> string list \<Rightarrow> string list" where
  "Set_add x s = (if x \<in> set s then s else s @ [x])"

definition Set_delete :: "string \<Rightarrow> string list \<Rightarrow> string list" where
  "Set_delete x s = filter (\<lambda>y. y \<noteq> x) s"

definition isNodeSelected :: "string list \<Rightarrow> string \<Rightarrow> bool" where
  "isNodeSelected selectedNodes nodeId = (nodeId \<in> set selectedNodes)"

text \<open>\<open>isNodePartiallySelected\<close>: some, but not all, of \<open>getDescendants(nodeId)\<close> are selected.\<close>

definition isNodePartiallySelected :: "HPONode list \<Rightarrow> string list \<Rightarrow> string \<Rightarrow> bool" where
  "isNodePartiallySelected nodes selectedNodes nodeId =
     (let descendants = getDescendants nodes nodeId;
          selectedDescendants = filter (\<lambda>i. i \<in> set selectedNodes) descendants
      in length selectedDescendants > 0 \<and> length selectedDescendants < length descendants)"

section \<open>Output adapter\<close>

text \<open>\<open>Array.prototype.join\<close> on an array of strings.\<close>

fun join :: "string \<Rightarrow> string list \<Rightarrow> string" where
  "join sep [] = []"
| "join sep [x] = x"
| "join sep (x # y # ys) = x @ sep @ join sep (y # ys)"

text \<open>
  \<open>Array.from(newSelected).map(id => ...).filter(term => term !== null)\<close>: every selected id
  is looked up with \<open>nodes.find\<close> (the first node with that id) and formatted by the template
  \<open>`${node.id} - ${node.name}`\<close>; ids with no node are left out.
\<close>

definition selectedTerms :: "HPONode list \<Rightarrow> string list \<Rightarrow> string list" where
  "selectedTerms nodes newSelected =
     List.map_filter
       (\<lambda>i. case find (\<lambda>n. node_id n = i) nodes of
               Some node \<Rightarrow> Some (node_id node @ '' - '' @ name node)
             | None \<Rightarrow> None)
       newSelected"

definition valueToSet :: "HPONode list \<Rightarrow> string list \<Rightarrow> string" where
  "valueToSet nodes newSelected =
     (let terms = selectedTerms nodes newSelected
      in if length terms > 0 then join '','' terms else [])"

text \<open>
  \<open>handleNodeSelect(node, checked)\<close>. The component state it reads (\<open>nodes\<close>,
  \<open>iframeLoaded\<close>, \<open>selectedNodes\<close>) is passed in; it returns the set given to
  \<open>setSelectedNodes\<close> and the string given to \<open>setVariables\<close> (\<open>None\<close> when the call is
  skipped because \<open>iframeLoaded\<close> is false).
\<close>

definition handleNodeSelect ::
  "HPONode list \<Rightarrow> bool \<Rightarrow> string list \<Rightarrow> HPONode \<Rightarrow> bool \<Rightarrow> string list \<times> string option" where
  "handleNodeSelect nodes iframeLoaded selectedNodes node checked =
     (let descendants = getDescendants nodes (node_id node);
          newSelected =
            (if checked then Set_add (node_id node) (fold Set_add descendants selectedNodes)
             else Set_delete (node_id node) (fold Set_delete descendants selectedNodes))
      in (newSelected, if iframeLoaded then Some (valueToSet nodes newSelected) else None))"

section \<open>View projector\<close>

text \<open>
  \<open>String.prototype.toLowerCase\<close> on the letters of ASCII (characters are bytes here) and
  \<open>String.prototype.includes\<close>: the search string occurs at some position.
\<close>

definition toLowerCase :: "string \<Rightarrow> string" where
  "toLowerCase s =
     map (\<lambda>c. case map_of (zip ''ABCDEFGHIJKLMNOPQRSTUVWXYZ'' ''abcdefghijklmnopqrstuvwxyz'') c of
                 None \<Rightarrow> c | Some l \<Rightarrow> l) s"

fun str_includes :: "string \<Rightarrow> string \<Rightarrow> bool" where
  "str_includes [] searchString = (searchString = [])"
| "str_includes (c # cs) searchString = (startsWith (c # cs) searchString \<or> str_includes cs searchString)"

text \<open>
  The test of the search pass:
  \<open>node.name.toLowerCase().includes(searchLower) || node.id.toLowerCase().includes(searchLower)\<close>.
\<close>

definition nodeMatches :: "string \<Rightarrow> HPONode \<Rightarrow> bool" where
  "nodeMatches searchLower node =
     (str_includes (toLowerCase (name node)) searchLower \<or> str_includes (toLowerCase (node_id node)) searchLower)"

text \<open>
  The ancestor walk, the loop \<open>while (current.parent_id) { ... }\<close> of \<open>visibleNodes\<close> and
  of the auto-expand effect: it adds \<open>current.parent_id\<close> to the set, looks the parent up in
  \<open>nodesById\<close>, stops when there is none and goes on from the parent otherwise. The loop
  has no visited set, so it need not end; \<open>None\<close> is the walk that never returns.
\<close>

partial_function (option) ancestorWalk ::
  "(string \<rightharpoonup> HPONode) \<Rightarrow> HPONode \<Rightarrow> string set \<Rightarrow> string set option" where
  "ancestorWalk byId current ancestorNodes =
     (if truthy (parent_id current) then
        (case byId (the (parent_id current)) of
           None \<Rightarrow> Some (insert (the (parent_id current)) ancestorNodes)
         | Some parent \<Rightarrow> ancestorWalk byId parent (insert (the (parent_id current)) ancestorNodes))
      else Some ancestorNodes)"


text \<open>
  The search pass of \<open>visibleNodes\<close>: \<open>nodes.forEach\<close> filling \<open>matchingNodes\<close> and
  \<open>ancestorNodes\<close>.
\<close>

fun findMatching ::
  "(string \<rightharpoonup> HPONode) \<Rightarrow> string \<Rightarrow> HPONode list \<Rightarrow> string set \<times> string set
     \<Rightarrow> (string set \<times> string set) option" where
  "findMatching byId searchLower [] (matchingNodes, ancestorNodes) = Some (matchingNodes, ancestorNodes)"
| "findMatching byId searchLower (node # rest) (matchingNodes, ancestorNodes) =
     (if nodeMatches searchLower node then
        (case ancestorWalk byId node ancestorNodes of
           None \<Rightarrow> None
         | Some ancestorNodes1 \<Rightarrow>
             findMatching byId searchLower rest (insert (node_id node) matchingNodes, ancestorNodes1))
      else findMatching byId searchLower rest (matchingNodes, ancestorNodes))"

text \<open>
  \<open>addNodeAndChildren\<close> (search mode) with the \<open>children.forEach\<close> of its body. The two
  mutable locals \<open>visited\<close> and \<open>result\<close> of \<open>visibleNodes\<close> are the state passed
  through; \<open>result.push(node)\<close> appends.
\<close>

function addNodeAndChildren ::
    "HPONode list \<Rightarrow> string set \<Rightarrow> string set \<Rightarrow> HPONode
       \<Rightarrow> string set \<times> HPONode list \<Rightarrow> string set \<times> HPONode list"
  and addIncludedChildren ::
    "HPONode list \<Rightarrow> string set \<Rightarrow> string set \<Rightarrow> HPONode list
       \<Rightarrow> string set \<times> HPONode list \<Rightarrow> string set \<times> HPONode list" where
  "addNodeAndChildren nodes matchingNodes ancestorNodes node (visited, result) =
     (if node_id node \<in> visited then (visited, result)
      else if node_id node \<in> matchingNodes \<or> node_id node \<in> ancestorNodes then
        addIncludedChildren nodes matchingNodes ancestorNodes
          (childrenOf nodes (Some (node_id node)))
          (insert (node_id node) visited, result @ [node])
      else (insert (node_id node) visited, result))"
| "addIncludedChildren nodes matchingNodes ancestorNodes [] st = st"
| "addIncludedChildren nodes matchingNodes ancestorNodes (child # children) st =
     addIncludedChildren nodes matchingNodes ancestorNodes children
       (if node_id child \<in> matchingNodes \<or> node_id child \<in> ancestorNodes
        then addNodeAndChildren nodes matchingNodes ancestorNodes child st else st)"
  by pat_completeness auto


text \<open>
  The call for the next child starts from the state the call for the previous child
  left, so termination rests on \<open>visited\<close> only growing.
\<close>

lemma search_visited_mono_dom:
  "addNodeAndChildren_addIncludedChildren_dom (Inl (nodes, m, a, node, st))
     \<Longrightarrow> fst st \<subseteq> fst (addNodeAndChildren nodes m a node st)"
  "addNodeAndChildren_addIncludedChildren_dom (Inr (nodes, m, a, children, st))
     \<Longrightarrow> fst st \<subseteq> fst (addIncludedChildren nodes m a children st)"
proof (induction nodes m a node st and nodes m a children st
    rule: addNodeAndChildren_addIncludedChildren.pinduct)
  case (1 nodes matchingNodes ancestorNodes node visited result)
  then show ?case
    by (auto simp: addNodeAndChildren.psimps)
next
  case (2 nodes matchingNodes ancestorNodes st)
  then show ?case by (simp add: addIncludedChildren.psimps)
next
  case (3 nodes matchingNodes ancestorNodes child children st)
  then show ?case
    by (auto simp: addIncludedChildren.psimps split: if_splits)
qed

lemma card_diff_mono:
  assumes "finite B" and "A \<subseteq> B" and "V \<subseteq> W"
  shows "card (A - W) \<le> card (B - V)"
  using assms by (intro card_mono) auto

termination addNodeAndChildren
proof (relation "inv_image (less_than <*lex*> less_than)
    (\<lambda>x. case x of
       Inl (nodes, m, a, node, st) \<Rightarrow>
         (card ((node_id ` set nodes \<union> {node_id node}) - fst st), 0)
     | Inr (nodes, m, a, children, st) \<Rightarrow>
         (card ((node_id ` set nodes \<union> node_id ` set children) - fst st), Suc (length children)))",
    goal_cases)
  case 1
  show ?case by (intro wf_inv_image wf_lex_prod wf_less_than)
next
  case (2 nodes matchingNodes ancestorNodes node visited result)
  have "node_id ` set (childrenOf nodes (Some (node_id node))) \<subseteq> node_id ` set nodes"
    using childrenOf_subset [of nodes "Some (node_id node)"] by auto
  then have "(node_id ` set nodes \<union> node_id ` set (childrenOf nodes (Some (node_id node))))
        - insert (node_id node) visited
      \<subset> (node_id ` set nodes \<union> {node_id node}) - visited"
    using 2 by auto
  then have "card ((node_id ` set nodes \<union> node_id ` set (childrenOf nodes (Some (node_id node))))
        - insert (node_id node) visited)
      < card ((node_id ` set nodes \<union> {node_id node}) - visited)"
    by (intro psubset_card_mono) auto
  then show ?case by simp
next
  case (3 nodes matchingNodes ancestorNodes child children st)
  have "card ((node_id ` set nodes \<union> {node_id child}) - fst st)
      \<le> card ((node_id ` set nodes \<union> node_id ` set (child # children)) - fst st)"
    by (intro card_diff_mono) auto
  then show ?case by (auto simp: less_Suc_eq_le)
next
  case (4 nodes matchingNodes ancestorNodes child children st)
  let ?st' = "if node_id child \<in> matchingNodes \<or> node_id child \<in> ancestorNodes
        then addNodeAndChildren nodes matchingNodes ancestorNodes child st else st"
  have "fst st \<subseteq> fst ?st'"
    using 4 search_visited_mono_dom(1) [of nodes matchingNodes ancestorNodes child st]
    by (auto split: if_splits)
  then have "card ((node_id ` set nodes \<union> node_id ` set children) - fst ?st')
      \<le> card ((node_id ` set nodes \<union> node_id ` set (child # children)) - fst st)"
    by (intro card_diff_mono) auto
  then show ?case by (auto simp: less_Suc_eq_le)
qed

text \<open>\<open>addNode\<close> (plain mode) with the \<open>children.forEach\<close> of its body.\<close>

function addNode ::
    "HPONode list \<Rightarrow> string set \<Rightarrow> HPONode
       \<Rightarrow> string set \<times> HPONode list \<Rightarrow> string set \<times> HPONode list"
  and addChildren ::
    "HPONode list \<Rightarrow> string set \<Rightarrow> HPONode list
       \<Rightarrow> string set \<times> HPONode list \<Rightarrow> string set \<times> HPONode list" where
  "addNode nodes expandedNodes node (visited, result) =
     (if node_id node \<in> visited then (visited, result)
      else if node_id node \<in> expandedNodes then
        addChildren nodes expandedNodes
          (childrenOf nodes (Some (node_id node)))
          (insert (node_id node) visited, result @ [node])
      else (insert (node_id node) visited, result @ [node]))"
| "addChildren nodes expandedNodes [] st = st"
| "addChildren nodes expandedNodes (child # children) st =
     addChildren nodes expandedNodes children (addNode nodes expandedNodes child st)"
  by pat_completeness auto

lemma plain_visited_mono_dom:
  "addNode_addChildren_dom (Inl (nodes, e, node, st))
     \<Longrightarrow> fst st \<subseteq> fst (addNode nodes e node st)"
  "addNode_addChildren_dom (Inr (nodes, e, children, st))
     \<Longrightarrow> fst st \<subseteq> fst (addChildren nodes e children st)"
proof (induction nodes e node st and nodes e children st rule: addNode_addChildren.pinduct)
  case (1 nodes expandedNodes node visited result)
  then show ?case
    by (auto simp: addNode.psimps)
next
  case (2 nodes expandedNodes st)
  then show ?case by (simp add: addChildren.psimps)
next
  case (3 nodes expandedNodes child children st)
  then show ?case
    by (auto simp: addChildren.psimps)
qed

termination addNode
proof (relation "inv_image (less_than <*lex*> less_than)
    (\<lambda>x. case x of
       Inl (nodes, e, node, st) \<Rightarrow>
         (card ((node_id ` set nodes \<union> {node_id node}) - fst st), 0)
     | Inr (nodes, e, children, st) \<Rightarrow>
         (card ((node_id ` set nodes \<union> node_id ` set children) - fst st), Suc (length children)))",
    goal_cases)
  case 1
  show ?case by (intro wf_inv_image wf_lex_prod wf_less_than)
next
  case (2 nodes expandedNodes node visited result)
  have "node_id ` set (childrenOf nodes (Some (node_id node))) \<subseteq> node_id ` set nodes"
    using childrenOf_subset [of nodes "Some (node_id node)"] by auto
  then have "(node_id ` set nodes \<union> node_id ` set (childrenOf nodes (Some (node_id node))))
        - insert (node_id node) visited
      \<subset> (node_id ` set nodes \<union> {node_id node}) - visited"
    using 2 by auto
  then have "card ((node_id ` set nodes \<union> node_id ` set (childrenOf nodes (Some (node_id node))))
        - insert (node_id node) visited)
      < card ((node_id ` set nodes \<union> {node_id node}) - visited)"
    by (intro psubset_card_mono) auto
  then show ?case by simp
next
  case (3 nodes expandedNodes child children st)
  have "card ((node_id ` set nodes \<union> {node_id child}) - fst st)
      \<le> card ((node_id ` set nodes \<union> node_id ` set (child # children)) - fst st)"
    by (intro card_diff_mono) auto
  then show ?case by (auto simp: less_Suc_eq_le)
next
  case (4 nodes expandedNodes child children st)
  have "fst st \<subseteq> fst (addNode nodes expandedNodes child st)"
    using 4 plain_visited_mono_dom(1) by blast
  then have "card ((node_id ` set nodes \<union> node_id ` set children)
        - fst (addNode nodes expandedNodes child st))
      \<le> card ((node_id ` set nodes \<union> node_id ` set (child # children)) - fst st)"
    by (intro card_diff_mono) auto
  then show ?case by (auto simp: less_Suc_eq_le)
qed

text \<open>
  \<open>visibleNodes\<close>. \<open>if (debouncedSearchTerm)\<close> tests for the non-empty string;
  \<open>rootNodes = nodesByParent.get(null) || []\<close>. The result is \<open>None\<close> exactly when an
  ancestor walk of the search pass does not return.
\<close>

definition visibleNodes :: "HPONode list \<Rightarrow> string set \<Rightarrow> string \<Rightarrow> HPONode list option" where
  "visibleNodes nodes expandedNodes debouncedSearchTerm =
     (if debouncedSearchTerm \<noteq> [] then
        (case findMatching (nodesById nodes) (toLowerCase debouncedSearchTerm) nodes ({}, {}) of
           None \<Rightarrow> None
         | Some (matchingNodes, ancestorNodes) \<Rightarrow>
             Some (snd (fold (addNodeAndChildren nodes matchingNodes ancestorNodes)
                          (childrenOf nodes None) ({}, []))))
      else Some (snd (fold (addNode nodes expandedNodes) (childrenOf nodes None) ({}, []))))"

text \<open>
  The auto-expand effect: the set handed to \<open>setExpandedNodes\<close>. For every matching node
  its ancestors are added by the same walk, then the node itself.
\<close>

fun expandMatches ::
  "(string \<rightharpoonup> HPONode) \<Rightarrow> string \<Rightarrow> HPONode list \<Rightarrow> string set \<Rightarrow> string set option" where
  "expandMatches byId searchLower [] matches = Some matches"
| "expandMatches byId searchLower (node # rest) matches =
     (if nodeMatches searchLower node then
        (case ancestorWalk byId node matches of
           None \<Rightarrow> None
         | Some matches1 \<Rightarrow> expandMatches byId searchLower rest (insert (node_id node) matches1))
      else expandMatches byId searchLower rest matches)"

definition autoExpand :: "HPONode list \<Rightarrow> string \<Rightarrow> string set option" where
  "autoExpand nodes debouncedSearchTerm =
     (if debouncedSearchTerm \<noteq> [] then
        expandMatches (nodesById nodes) (toLowerCase debouncedSearchTerm) nodes {}
      else Some {})"

section \<open>Sibling paths\<close>

text \<open>
  The level expression of the sibling loader \<open>loadHPOData\<close>:
  \<open>parseInt(row.LEVEL) || 0\<close>, on a field that is always a string there. With no radix
  given, \<open>parseInt\<close> reads hexadecimal digits after a prefix \<open>0x\<close> or \<open>0X\<close> and decimal
  digits otherwise; \<open>|| 0\<close> replaces \<open>NaN\<close> (and \<open>0\<close>) by \<open>0\<close>.
\<close>

definition isHexDigit :: "char \<Rightarrow> bool" where
  "isHexDigit c = (c \<in> set ''0123456789abcdefABCDEF'')"

definition hexDigitValue :: "char \<Rightarrow> int" where
  "hexDigitValue c = int (length (takeWhile (\<lambda>d. [d] \<noteq> toLowerCase [c]) ''0123456789abcdef''))"

definition parseInt_noRadix :: "string \<Rightarrow> jsnum" where
  "parseInt_noRadix str =
     (let s = dropWhile isWhiteSpace str;
          sign = (if take 1 s = ''-'' then - 1 else 1);
          s1 = (if take 1 s = ''-'' \<or> take 1 s = ''+'' then drop 1 s else s)
      in if take 2 s1 = ''0x'' \<or> take 2 s1 = ''0X'' then
           (let digits = takeWhile isHexDigit (drop 2 s1)
            in if digits = [] then NaN
               else Num (sign * foldl (\<lambda>acc c. 16 * acc + hexDigitValue c) 0 digits))
         else
           (let digits = takeWhile isDigit s1
            in if digits = [] then NaN
               else Num (sign * foldl (\<lambda>acc c. 10 * acc + digitValue c) 0 digits)))"

definition loadHPOData_level :: "string \<Rightarrow> jsnum" where
  "loadHPOData_level LEVEL_field = (case parseInt_noRadix LEVEL_field of NaN \<Rightarrow> Num 0 | Num k \<Rightarrow> Num k)"

text \<open>
  The sibling loader \<open>loadChunkedData\<close> of the tree-building variant of the component
  computes its roots as
  \<open>parsedNodes.filter(node => !node.parentId || !nodesMap.has(node.parentId))\<close>, where
  \<open>nodesMap\<close> is filled like \<open>nodesById\<close>.
\<close>

definition loadChunkedData_rootNodes :: "HPONode list \<Rightarrow> HPONode list" where
  "loadChunkedData_rootNodes parsedNodes =
     filter (\<lambda>node. \<not> truthy (parent_id node) \<or> nodesById parsedNodes (the (parent_id node)) = None)
       parsedNodes"

section \<open>Example record sets\<close>

text \<open>The three records of the specification's example scenarios.\<close>

definition scenario_nodes :: "HPONode list" where
  "scenario_nodes =
    [\<lparr>node_id = ''HP:1'', name = ''RootA'', parent_id = None, level = Num 0, has_children = True\<rparr>,
     \<lparr>node_id = ''HP:2'', name = ''ChildA'', parent_id = Some ''HP:1'', level = Num 1, has_children = False\<rparr>,
     \<lparr>node_id = ''HP:3'', name = ''ChildB'', parent_id = Some ''HP:1'', level = Num 1, has_children = False\<rparr>]"

text \<open>A record whose parent is not in the record set, with a child of its own.\<close>

definition dangling_nodes :: "HPONode list" where
  "dangling_nodes =
    [\<lparr>node_id = ''HP:5'', name = ''Orphan'', parent_id = Some ''HP:999'', level = Num 1, has_children = True\<rparr>,
     \<lparr>node_id = ''HP:6'', name = ''Leaf'', parent_id = Some ''HP:5'', level = Num 2, has_children = False\<rparr>]"

text \<open>Two records that are each other's parent.\<close>

definition cyclic_nodes :: "HPONode list" where
  "cyclic_nodes =
    [\<lparr>node_id = ''A'', name = ''First'', parent_id = Some ''B'', level = Num 1, has_children = True\<rparr>,
     \<lparr>node_id = ''B'', name = ''Second'', parent_id = Some ''A'', level = Num 1, has_children = True\<rparr>]"

section \<open>Descendants\<close>

lemma loop_sound:
  "set (getDescendants_loop nodes nodeId stack visited descendants)
     \<subseteq> set descendants \<union> ((childRel nodes)\<^sup>* `` set stack - {nodeId})"
proof (induction nodes nodeId stack visited descendants rule: getDescendants_loop.induct)
  case (1 nodes nodeId stack visited descendants)
  show ?case
  proof (cases "stack = []")
    case True
    then show ?thesis by (simp add: getDescendants_loop.simps)
  next
    case ne: False
    then have st: "stack = butlast stack @ [last stack]" by simp
    show ?thesis
    proof (cases "last stack \<in> visited")
      case True
      have "set (butlast stack) \<subseteq> set stack" by (auto dest: in_set_butlastD)
      then have "(childRel nodes)\<^sup>* `` set (butlast stack) \<subseteq> (childRel nodes)\<^sup>* `` set stack"
        by blast
      with "1.IH"(1) [OF ne refl refl True] ne True show ?thesis
        by (subst getDescendants_loop.simps) (auto simp: Let_def)
    next
      case False
      let ?cur = "last stack"
      let ?v1 = "insert ?cur visited"
      let ?d1 = "if ?cur \<noteq> nodeId then descendants @ [?cur] else descendants"
      let ?st2 = "butlast stack @ map node_id (filter (\<lambda>child. node_id child \<notin> ?v1) (childrenOf nodes (Some ?cur)))"
      have IH: "set (getDescendants_loop nodes nodeId ?st2 ?v1 ?d1)
          \<subseteq> set ?d1 \<union> ((childRel nodes)\<^sup>* `` set ?st2 - {nodeId})"
        using "1.IH"(2) [OF ne refl refl False refl refl refl refl] .
      have cur: "?cur \<in> set stack" using ne by simp
      have "set (butlast stack) \<subseteq> set stack" by (auto dest: in_set_butlastD)
      moreover have "node_id ` set (childrenOf nodes (Some ?cur)) \<subseteq> (childRel nodes) `` {?cur}"
        by (auto simp: childRel_def)
      ultimately have "set ?st2 \<subseteq> set stack \<union> (childRel nodes) `` {?cur}"
        by auto
      moreover have "(childRel nodes)\<^sup>* `` (set stack \<union> (childRel nodes) `` {?cur})
          \<subseteq> (childRel nodes)\<^sup>* `` set stack"
        using cur by (blast intro: converse_rtrancl_into_rtrancl)
      ultimately have a: "(childRel nodes)\<^sup>* `` set ?st2 \<subseteq> (childRel nodes)\<^sup>* `` set stack"
        by blast
      have b: "set ?d1 \<subseteq> set descendants \<union> ((childRel nodes)\<^sup>* `` set stack - {nodeId})"
        using cur by auto
      have eq: "getDescendants_loop nodes nodeId stack visited descendants
          = getDescendants_loop nodes nodeId ?st2 ?v1 ?d1"
        using ne False by (subst getDescendants_loop.simps) (simp add: Let_def)
      have "set ?d1 \<union> ((childRel nodes)\<^sup>* `` set ?st2 - {nodeId})
          \<subseteq> set descendants \<union> ((childRel nodes)\<^sup>* `` set stack - {nodeId})"
        using a b by (intro Un_least) blast+
      with IH show ?thesis unfolding eq by (rule order_trans)
    qed
  qed
qed

lemma loop_complete:
  assumes "\<forall>x \<in> visited. (childRel nodes) `` {x} \<subseteq> visited \<union> set stack"
    and "visited - {nodeId} \<subseteq> set descendants"
  shows "\<exists>V. visited \<union> set stack \<subseteq> V \<and> (childRel nodes) `` V \<subseteq> V
      \<and> V - {nodeId} \<subseteq> set (getDescendants_loop nodes nodeId stack visited descendants)"
  using assms
proof (induction nodes nodeId stack visited descendants rule: getDescendants_loop.induct)
  case (1 nodes nodeId stack visited descendants)
  show ?case
  proof (cases "stack = []")
    case True
    with "1.prems" have "(childRel nodes) `` visited \<subseteq> visited" by auto
    with True "1.prems" show ?thesis
      by (subst getDescendants_loop.simps) auto
  next
    case ne: False
    then have st: "set stack = insert (last stack) (set (butlast stack))"
      by (metis append_butlast_last_id list.simps(15) rotate1.simps(2) set_rotate1)
    show ?thesis
    proof (cases "last stack \<in> visited")
      case True
      have eq: "getDescendants_loop nodes nodeId stack visited descendants
          = getDescendants_loop nodes nodeId (butlast stack) visited descendants"
        using ne True by (subst getDescendants_loop.simps) (simp add: Let_def)
      have "\<forall>x \<in> visited. (childRel nodes) `` {x} \<subseteq> visited \<union> set (butlast stack)"
        using "1.prems"(1) True st by auto
      from "1.IH"(1) [OF ne refl refl True this "1.prems"(2)]
      obtain V where "visited \<union> set (butlast stack) \<subseteq> V" "(childRel nodes) `` V \<subseteq> V"
        "V - {nodeId} \<subseteq> set (getDescendants_loop nodes nodeId (butlast stack) visited descendants)"
        by blast
      with True st eq show ?thesis by (intro exI [of _ V]) auto
    next
      case False
      let ?cur = "last stack"
      let ?v1 = "insert ?cur visited"
      let ?d1 = "if ?cur \<noteq> nodeId then descendants @ [?cur] else descendants"
      let ?st2 = "butlast stack @ map node_id (filter (\<lambda>child. node_id child \<notin> ?v1) (childrenOf nodes (Some ?cur)))"
      have eq: "getDescendants_loop nodes nodeId stack visited descendants
          = getDescendants_loop nodes nodeId ?st2 ?v1 ?d1"
        using ne False by (subst getDescendants_loop.simps) (simp add: Let_def)
      have kids: "(childRel nodes) `` {?cur} \<subseteq> ?v1 \<union> set ?st2"
        by (auto simp: childRel_def)
      have old: "\<forall>x \<in> visited. (childRel nodes) `` {x} \<subseteq> ?v1 \<union> set ?st2"
        using "1.prems"(1) st by auto
      have inv1: "\<forall>x \<in> ?v1. (childRel nodes) `` {x} \<subseteq> ?v1 \<union> set ?st2"
        using kids old by blast
      have inv2: "?v1 - {nodeId} \<subseteq> set ?d1"
        using "1.prems"(2) by auto
      from "1.IH"(2) [OF ne refl refl False refl refl refl refl inv1 inv2]
      obtain V where V: "?v1 \<union> set ?st2 \<subseteq> V" "(childRel nodes) `` V \<subseteq> V"
        "V - {nodeId} \<subseteq> set (getDescendants_loop nodes nodeId ?st2 ?v1 ?d1)"
        by blast
      have "visited \<union> set stack \<subseteq> V"
        using V(1) st by auto
      with V eq show ?thesis by (intro exI [of _ V]) auto
    qed
  qed
qed

lemma closed_rtrancl_Image:
  assumes "R `` V \<subseteq> V" and "x \<in> V"
  shows "R\<^sup>* `` {x} \<subseteq> V"
proof
  fix y
  assume "y \<in> R\<^sup>* `` {x}"
  then have "(x, y) \<in> R\<^sup>*" by simp
  then show "y \<in> V"
    using assms by (induction rule: rtrancl_induct) auto
qed

text \<open>No id is returned twice.\<close>

lemma loop_distinct:
  "distinct descendants \<Longrightarrow> set descendants \<subseteq> visited
     \<Longrightarrow> distinct (getDescendants_loop nodes nodeId stack visited descendants)"
proof (induction nodes nodeId stack visited descendants rule: getDescendants_loop.induct)
  case (1 nodes nodeId stack visited descendants)
  show ?case
  proof (cases "stack = []")
    case True
    with "1.prems" show ?thesis by (simp add: getDescendants_loop.simps)
  next
    case ne: False
    show ?thesis
    proof (cases "last stack \<in> visited")
      case True
      with "1.IH"(1) [OF ne refl refl True "1.prems"] ne show ?thesis
        by (subst getDescendants_loop.simps) (simp add: Let_def)
    next
      case False
      let ?cur = "last stack"
      let ?d1 = "if ?cur \<noteq> nodeId then descendants @ [?cur] else descendants"
      have d1: "distinct ?d1" "set ?d1 \<subseteq> insert ?cur visited"
        using "1.prems" False by auto
      from "1.IH"(2) [OF ne refl refl False refl refl refl refl d1] ne False show ?thesis
        by (subst getDescendants_loop.simps) (simp add: Let_def)
    qed
  qed
qed

lemma getDescendants_distinct: "distinct (getDescendants nodes i)"
  by (simp add: getDescendants_def loop_distinct)

text \<open>
  Claim C3. For every id, the ids returned by \<open>getDescendants\<close> are exactly those
  reachable from it in one or more steps of the children relation, with the id itself
  left out (also when the parent links form a cycle through it).
\<close>

theorem getDescendants_reachable:
  "set (getDescendants nodes i) = {d. (i, d) \<in> (childRel nodes)\<^sup>+} - {i}"
proof -
  have snd: "set (getDescendants nodes i) \<subseteq> (childRel nodes)\<^sup>* `` {i} - {i}"
    using loop_sound [of nodes i "[i]" "{}" "[]"] by (simp add: getDescendants_def)
  obtain V where V: "i \<in> V" "(childRel nodes) `` V \<subseteq> V"
    "V - {i} \<subseteq> set (getDescendants nodes i)"
    using loop_complete [of "{}" nodes "[i]" i "[]"] by (auto simp: getDescendants_def)
  have "(childRel nodes)\<^sup>* `` {i} \<subseteq> V"
    using closed_rtrancl_Image [OF V(2) V(1)] .
  with V(3) snd have "set (getDescendants nodes i) = (childRel nodes)\<^sup>* `` {i} - {i}"
    by blast
  also have "\<dots> = {d. (i, d) \<in> (childRel nodes)\<^sup>+} - {i}"
    by (auto simp: rtrancl_eq_or_trancl)
  finally show ?thesis .
qed


section \<open>Selection and serialisation\<close>

lemma set_fold_Set_add: "set (fold Set_add xs s) = set s \<union> set xs"
  by (induction xs arbitrary: s) (auto simp: Set_add_def)

lemma set_fold_Set_delete: "set (fold Set_delete xs s) = set s - set xs"
  by (induction xs arbitrary: s) (auto simp: Set_delete_def)

text \<open>The list that stands for the selection set never repeats an id.\<close>

lemma handleNodeSelect_distinct:
  "distinct sel \<Longrightarrow> distinct (fst (handleNodeSelect nodes il sel N checked))"
proof -
  have a: "distinct s \<Longrightarrow> distinct (fold Set_add xs s)" for xs s
    by (induction xs arbitrary: s) (simp_all add: Set_add_def)
  have b: "distinct s \<Longrightarrow> distinct (fold Set_delete xs s)" for xs s
    by (induction xs arbitrary: s) (simp_all add: Set_delete_def)
  assume "distinct sel"
  then show ?thesis
    by (simp add: handleNodeSelect_def Let_def Set_add_def Set_delete_def a b)
qed

lemma scenario_descendants: "getDescendants scenario_nodes ''HP:1'' = [''HP:3'', ''HP:2'']"
  by (simp add: getDescendants_def getDescendants_loop.simps childrenOf_filter scenario_nodes_def Let_def)

text \<open>
  Claim C1. After \<open>handleNodeSelect(N, true)\<close>, in any selection state, \<open>N\<close> and every
  id of \<open>getDescendants(N)\<close> is selected; after \<open>handleNodeSelect(N, false)\<close>, in any
  selection state (in particular the one the select left, or one changed by other
  selections in between), none of them is.
\<close>

theorem select_deselect_roundtrip:
  assumes "d = node_id N \<or> d \<in> set (getDescendants nodes (node_id N))"
  shows "isNodeSelected (fst (handleNodeSelect nodes il sel N True)) d \<and>
         \<not> isNodeSelected (fst (handleNodeSelect nodes il' sel' N False)) d \<and>
         \<not> isNodeSelected
             (fst (handleNodeSelect nodes il' (fst (handleNodeSelect nodes il sel N True)) N False)) d"
  using assms
  by (auto simp: handleNodeSelect_def isNodeSelected_def Let_def Set_add_def Set_delete_def
      set_fold_Set_add set_fold_Set_delete)

theorem select_deselect_roundtrip_witness:
  "''HP:2'' \<in> set (getDescendants scenario_nodes (node_id (scenario_nodes ! 0))) \<and>
   isNodeSelected (fst (handleNodeSelect scenario_nodes True [''HP:9''] (scenario_nodes ! 0) True)) ''HP:2'' \<and>
   \<not> isNodeSelected (fst (handleNodeSelect scenario_nodes True [''HP:2'', ''HP:9''] (scenario_nodes ! 0) False)) ''HP:2''"
proof -
  have h: "''HP:2'' \<in> set (getDescendants scenario_nodes (node_id (scenario_nodes ! 0)))"
    using scenario_descendants by (simp add: scenario_nodes_def)
  then have "''HP:2'' = node_id (scenario_nodes ! 0)
      \<or> ''HP:2'' \<in> set (getDescendants scenario_nodes (node_id (scenario_nodes ! 0)))" ..
  from select_deselect_roundtrip [OF this, of True "[''HP:9'']" True "[''HP:2'', ''HP:9'']"] h
  show ?thesis by simp
qed

text \<open>
  Claim C4. \<open>isNodePartiallySelected(id)\<close> holds exactly when \<open>getDescendants(id)\<close> is not
  empty and at least one, but not every one, of these descendants is selected; it is false
  for a node with no descendants and for a node whose descendants are all selected.
\<close>

theorem isNodePartiallySelected_iff:
  "(isNodePartiallySelected nodes sel i \<longleftrightarrow>
      getDescendants nodes i \<noteq> [] \<and>
      (\<exists>d \<in> set (getDescendants nodes i). isNodeSelected sel d) \<and>
      (\<exists>d \<in> set (getDescendants nodes i). \<not> isNodeSelected sel d)) \<and>
   (getDescendants nodes i = [] \<longrightarrow> \<not> isNodePartiallySelected nodes sel i) \<and>
   ((\<forall>d \<in> set (getDescendants nodes i). isNodeSelected sel d)
      \<longrightarrow> \<not> isNodePartiallySelected nodes sel i)"
proof -
  let ?ds = "getDescendants nodes i"
  let ?P = "\<lambda>d. d \<in> set sel"
  have pos: "0 < length (filter ?P ?ds) \<longleftrightarrow> (\<exists>d \<in> set ?ds. ?P d)"
    by (simp add: filter_empty_conv)
  have lt: "length (filter ?P ?ds) < length ?ds \<longleftrightarrow> (\<exists>d \<in> set ?ds. \<not> ?P d)"
    using length_filter_less [of _ ?ds ?P] length_filter_le [of ?P ?ds]
    by (metis filter_True less_irrefl)
  show ?thesis
    unfolding isNodePartiallySelected_def isNodeSelected_def Let_def pos lt by auto
qed

theorem isNodePartiallySelected_iff_witness:
  "getDescendants scenario_nodes ''HP:1'' = [''HP:3'', ''HP:2''] \<and>
   isNodePartiallySelected scenario_nodes [''HP:2''] ''HP:1'' \<and>
   \<not> isNodeSelected [''HP:2''] ''HP:1'' \<and>
   getDescendants scenario_nodes ''HP:2'' = [] \<and>
   \<not> isNodePartiallySelected scenario_nodes [''HP:2''] ''HP:2'' \<and>
   \<not> isNodePartiallySelected scenario_nodes [''HP:3'', ''HP:2'', ''HP:1''] ''HP:1''"
proof -
  have leaf: "getDescendants scenario_nodes ''HP:2'' = []"
    by (simp add: getDescendants_def getDescendants_loop.simps childrenOf_filter
        scenario_nodes_def Let_def)
  show ?thesis
    using isNodePartiallySelected_iff [of scenario_nodes "[''HP:2'']" "''HP:1''"]
      isNodePartiallySelected_iff [of scenario_nodes "[''HP:2'']" "''HP:2''"]
      isNodePartiallySelected_iff [of scenario_nodes "[''HP:3'', ''HP:2'', ''HP:1'']" "''HP:1''"]
      leaf scenario_descendants
    by (simp add: isNodeSelected_def)
qed

lemma find_append_opt:
  "find P (xs @ ys) = (case find P xs of None \<Rightarrow> find P ys | Some x \<Rightarrow> Some x)"
  by (induction xs) auto

lemma nodesById_fold_aux:
  "fold (\<lambda>node m. m(node_id node \<mapsto> node)) nodes m0 i =
   (case find (\<lambda>n. node_id n = i) (rev nodes) of None \<Rightarrow> m0 i | Some n \<Rightarrow> Some n)"
  by (induction nodes arbitrary: m0) (auto simp: find_append_opt split: option.splits)

lemma nodesById_find_rev: "nodesById nodes i = find (\<lambda>n. node_id n = i) (rev nodes)"
  by (simp add: nodesById_def nodesById_fold_aux split: option.splits)

lemma find_rev_distinct:
  "distinct (map f xs) \<Longrightarrow> find (\<lambda>n. f n = i) (rev xs) = find (\<lambda>n. f n = i) xs"
proof (induction xs)
  case Nil
  then show ?case by simp
next
  case (Cons x xs)
  show ?case
  proof (cases "f x = i")
    case True
    with Cons.prems have "\<not> (\<exists>y. y \<in> set (rev xs) \<and> f y = i)"
      by (force simp: image_iff)
    then have "find (\<lambda>n. f n = i) (rev xs) = None"
      unfolding find_None_iff .
    with True show ?thesis by (simp add: find_append_opt)
  next
    case False
    with Cons show ?thesis by (simp add: find_append_opt split: option.splits)
  qed
qed

lemma nodesById_find:
  "distinct (map node_id nodes) \<Longrightarrow> nodesById nodes i = find (\<lambda>n. node_id n = i) nodes"
  by (simp add: nodesById_find_rev find_rev_distinct)

lemma find_Some_in_set: "find P xs = Some x \<Longrightarrow> x \<in> set xs \<and> P x"
  by (induction xs) (auto split: if_splits)

lemma nodesById_in_set: "nodesById nodes i = Some n \<Longrightarrow> n \<in> set nodes \<and> node_id n = i"
  using find_Some_in_set [of "\<lambda>n. node_id n = i" "rev nodes" n]
  by (simp add: nodesById_find_rev)

lemma join_nonempty_if: "(if 0 < length ts then join sep ts else []) = join sep ts"
  by (cases ts) auto

lemma selectedTerms_all_found:
  assumes "set sel \<subseteq> node_id ` set nodes"
  shows "selectedTerms nodes sel =
    map (\<lambda>i. i @ '' - '' @ name (the (find (\<lambda>n. node_id n = i) nodes))) sel"
  using assms
proof (induction sel)
  case Nil
  then show ?case by (simp add: selectedTerms_def map_filter_simps)
next
  case (Cons i sel)
  from Cons.prems obtain n where n: "n \<in> set nodes" "node_id n = i" by auto
  then have "find (\<lambda>n. node_id n = i) nodes \<noteq> None"
    by (auto simp: find_None_iff)
  then obtain m where m: "find (\<lambda>n. node_id n = i) nodes = Some m" by auto
  then have "node_id m = i" by (auto simp: find_Some_iff)
  with m Cons show ?case
    by (simp add: selectedTerms_def map_filter_simps)
qed

text \<open>
  Claim C7. When every selected id belongs to the record set, the value handed to the host
  is the entries \<open>id - name\<close> of the selected ids, in the iteration order of the
  selection set, joined by single commas; for the empty selection it is the empty string.
  The handler passes exactly this value of the new selection.
\<close>

theorem valueToSet_format:
  assumes "set sel \<subseteq> node_id ` set nodes"
  shows "valueToSet nodes sel =
           join '','' (map (\<lambda>i. i @ '' - '' @ name (the (find (\<lambda>n. node_id n = i) nodes))) sel) \<and>
         valueToSet nodes [] = [] \<and>
         snd (handleNodeSelect nodes True selectedNodes node checked) =
           Some (valueToSet nodes (fst (handleNodeSelect nodes True selectedNodes node checked)))"
proof -
  have "valueToSet nodes [] = []"
    by (simp add: valueToSet_def selectedTerms_def map_filter_simps)
  moreover have "valueToSet nodes sel =
      join '','' (map (\<lambda>i. i @ '' - '' @ name (the (find (\<lambda>n. node_id n = i) nodes))) sel)"
    unfolding valueToSet_def Let_def join_nonempty_if selectedTerms_all_found [OF assms] ..
  moreover have "snd (handleNodeSelect nodes True selectedNodes node checked) =
      Some (valueToSet nodes (fst (handleNodeSelect nodes True selectedNodes node checked)))"
    by (simp add: handleNodeSelect_def Let_def)
  ultimately show ?thesis by blast
qed

lemma scenario_select_root:
  "handleNodeSelect scenario_nodes True [] (scenario_nodes ! 0) True =
     ([''HP:3'', ''HP:2'', ''HP:1''], Some ''HP:3 - ChildB,HP:2 - ChildA,HP:1 - RootA'')"
  by (simp add: handleNodeSelect_def Let_def scenario_descendants [unfolded scenario_nodes_def]
      Set_add_def valueToSet_def selectedTerms_def map_filter_simps scenario_nodes_def)

theorem valueToSet_format_witness:
  "set [''HP:3'', ''HP:2'', ''HP:1''] \<subseteq> node_id ` set scenario_nodes \<and>
   valueToSet scenario_nodes [''HP:3'', ''HP:2'', ''HP:1''] = ''HP:3 - ChildB,HP:2 - ChildA,HP:1 - RootA''"
proof -
  have h: "set [''HP:3'', ''HP:2'', ''HP:1''] \<subseteq> node_id ` set scenario_nodes"
    by (simp add: scenario_nodes_def)
  show ?thesis
    using h valueToSet_format [OF h, of "[]" "scenario_nodes ! 0" True]
    by (simp add: scenario_nodes_def)
qed

section \<open>Normalized records\<close>

lemma parseInt_example: "parseInt (Some '' -12ab'') = Num (- 12)"
  by (simp add: parseInt_def isWhiteSpace_def isDigit_def digitValue_def Let_def)

lemma stripQuotes_nonempty_truthy: "stripQuotes v \<noteq> [] \<Longrightarrow> truthy v"
  by (simp add: stripQuotes_def split: if_splits)

text \<open>
  A row whose \<open>TERM_ID\<close> starts with \<open>]\<close> is dropped although both of its fields are
  non-empty after trimming.
\<close>

theorem processedNodes_bracket_counterexample:
  "stripQuotes (Some '']x'') \<noteq> [] \<and> stripQuotes (Some ''Y'') \<noteq> [] \<and>
   processedNodes [\<lparr>TERM_ID = Some '']x'', TERM_FULL_NAME = Some ''Y'', PARENT_ID = None, LEVEL = Some ''0''\<rparr>] = []"
  by (simp add: stripQuotes_def truthy_def trim_def isWhiteSpace_def processedNodes_def keepRow_def startsWith_def)

text \<open>
  Claim C8, as amended. A row is dropped when its \<open>TERM_ID\<close> or \<open>TERM_FULL_NAME\<close> is missing
  or the empty string, and when its \<open>TERM_ID\<close> starts with \<open>]\<close>. A row whose \<open>TERM_ID\<close>
  and \<open>TERM_FULL_NAME\<close> are non-empty after trimming quotes and white space, and whose
  \<open>TERM_ID\<close> does not start with \<open>]\<close>, is emitted as one record with the trimmed id and
  name. Every row is decided on its own and the order of the rows is kept.
\<close>

theorem processedNodes_row:
  "(\<not> truthy (TERM_ID row) \<or> \<not> truthy (TERM_FULL_NAME row) \<or> startsWith (the (TERM_ID row)) '']''
      \<longrightarrow> processedNodes [row] = []) \<and>
   (stripQuotes (TERM_ID row) \<noteq> [] \<and> stripQuotes (TERM_FULL_NAME row) \<noteq> [] \<and>
    \<not> startsWith (the (TERM_ID row)) '']''
      \<longrightarrow> (\<exists>n. processedNodes [row] = [n] \<and> node_id n = stripQuotes (TERM_ID row) \<and>
               name n = stripQuotes (TERM_FULL_NAME row))) \<and>
   processedNodes (before @ row # after) = processedNodes before @ processedNodes [row] @ processedNodes after"
  by (auto simp: processedNodes_def keepRow_def toNode_def dest: stripQuotes_nonempty_truthy)

theorem processedNodes_row_witness:
  "processedNodes [\<lparr>TERM_ID = Some '''', TERM_FULL_NAME = Some ''X'', PARENT_ID = None, LEVEL = Some ''0''\<rparr>] = [] \<and>
   processedNodes [\<lparr>TERM_ID = Some '']'', TERM_FULL_NAME = Some ''X'', PARENT_ID = None, LEVEL = Some ''0''\<rparr>] = [] \<and>
   processedNodes [\<lparr>TERM_ID = Some ''HP:1'', TERM_FULL_NAME = None, PARENT_ID = None, LEVEL = Some ''0''\<rparr>] = [] \<and>
   stripQuotes (Some ''HP:1'') = ''HP:1'' \<and>
   (\<exists>n. processedNodes [\<lparr>TERM_ID = Some ''HP:1'', TERM_FULL_NAME = Some ''RootA'', PARENT_ID = Some '''', LEVEL = Some ''0''\<rparr>] = [n]
      \<and> node_id n = ''HP:1'' \<and> name n = ''RootA'')"
  using processedNodes_row [of "\<lparr>TERM_ID = Some '''', TERM_FULL_NAME = Some ''X'', PARENT_ID = None, LEVEL = Some ''0''\<rparr>" "[]" "[]"]
    processedNodes_row [of "\<lparr>TERM_ID = Some '']'', TERM_FULL_NAME = Some ''X'', PARENT_ID = None, LEVEL = Some ''0''\<rparr>" "[]" "[]"]
    processedNodes_row [of "\<lparr>TERM_ID = Some ''HP:1'', TERM_FULL_NAME = None, PARENT_ID = None, LEVEL = Some ''0''\<rparr>" "[]" "[]"]
    processedNodes_row [of "\<lparr>TERM_ID = Some ''HP:1'', TERM_FULL_NAME = Some ''RootA'', PARENT_ID = Some '''', LEVEL = Some ''0''\<rparr>" "[]" "[]"]
  by (simp add: stripQuotes_def truthy_def trim_def isWhiteSpace_def startsWith_def)

text \<open>
  Claim C9 at its failing inputs. A \<open>LEVEL\<close> that does not parse (the text \<open>abc\<close>, or a
  missing field) leaves \<open>level = NaN\<close> in the emitted record, not \<open>0\<close>; a \<open>LEVEL\<close> that
  parses gives its integer.
\<close>

theorem level_NaN_on_parse_failure:
  "map level (processedNodes
      [\<lparr>TERM_ID = Some ''HP:1'', TERM_FULL_NAME = Some ''RootA'', PARENT_ID = Some '''', LEVEL = Some ''abc''\<rparr>,
       \<lparr>TERM_ID = Some ''HP:2'', TERM_FULL_NAME = Some ''ChildA'', PARENT_ID = Some ''HP:1'', LEVEL = None\<rparr>,
       \<lparr>TERM_ID = Some ''HP:3'', TERM_FULL_NAME = Some ''ChildB'', PARENT_ID = Some ''HP:1'', LEVEL = Some ''1''\<rparr>])
   = [NaN, NaN, Num 1]"
  by (simp add: processedNodes_def keepRow_def toNode_def truthy_def startsWith_def parseInt_def
      isWhiteSpace_def isDigit_def digitValue_def Let_def)


text \<open>The sibling loader gives \<open>0\<close> whenever its parse fails.\<close>

lemma loadHPOData_level_default:
  "parseInt_noRadix v = NaN \<Longrightarrow> loadHPOData_level v = Num 0"
  by (simp add: loadHPOData_level_def)

lemma loadHPOData_level_examples:
  "loadHPOData_level ''abc'' = Num 0 \<and> loadHPOData_level [] = Num 0 \<and> loadHPOData_level ''2'' = Num 2"
  by (simp add: loadHPOData_level_def parseInt_noRadix_def isWhiteSpace_def isDigit_def
      digitValue_def Let_def)

section \<open>Visible nodes\<close>

text \<open>
  The invariant of both traversals: the ids of \<open>result\<close> are pairwise different and
  all in \<open>visited\<close>, and \<open>result\<close> holds records of \<open>nodes\<close> only.
\<close>

definition walk_inv :: "HPONode list \<Rightarrow> string set \<times> HPONode list \<Rightarrow> bool" where
  "walk_inv nodes st =
     (distinct (map node_id (snd st)) \<and> node_id ` set (snd st) \<subseteq> fst st \<and> set (snd st) \<subseteq> set nodes)"

lemma search_walk_inv:
  "node \<in> set nodes \<Longrightarrow> walk_inv nodes st \<Longrightarrow> walk_inv nodes (addNodeAndChildren nodes m a node st)"
  "set children \<subseteq> set nodes \<Longrightarrow> walk_inv nodes st
     \<Longrightarrow> walk_inv nodes (addIncludedChildren nodes m a children st)"
proof (induction nodes m a node st and nodes m a children st
    rule: addNodeAndChildren_addIncludedChildren.induct)
  case (1 nodes matchingNodes ancestorNodes node visited result)
  show ?case
  proof (cases "node_id node \<in> visited")
    case True
    with 1 show ?thesis by simp
  next
    case nv: False
    show ?thesis
    proof (cases "node_id node \<in> matchingNodes \<or> node_id node \<in> ancestorNodes")
      case True
      have "walk_inv nodes (insert (node_id node) visited, result @ [node])"
        using "1.prems" nv by (auto simp: walk_inv_def)
      with "1.IH" [OF nv True childrenOf_subset] nv True show ?thesis by simp
    next
      case False
      with "1.prems" nv show ?thesis by (auto simp: walk_inv_def)
    qed
  qed
next
  case (2 nodes matchingNodes ancestorNodes st)
  then show ?case by simp
next
  case (3 nodes matchingNodes ancestorNodes child children st)
  then show ?case by auto
qed

lemma plain_walk_inv:
  "node \<in> set nodes \<Longrightarrow> walk_inv nodes st \<Longrightarrow> walk_inv nodes (addNode nodes e node st)"
  "set children \<subseteq> set nodes \<Longrightarrow> walk_inv nodes st
     \<Longrightarrow> walk_inv nodes (addChildren nodes e children st)"
proof (induction nodes e node st and nodes e children st rule: addNode_addChildren.induct)
  case (1 nodes expandedNodes node visited result)
  show ?case
  proof (cases "node_id node \<in> visited")
    case True
    with 1 show ?thesis by simp
  next
    case nv: False
    have inv1: "walk_inv nodes (insert (node_id node) visited, result @ [node])"
      using "1.prems" nv by (auto simp: walk_inv_def)
    show ?thesis
    proof (cases "node_id node \<in> expandedNodes")
      case True
      with "1.IH" [OF nv True childrenOf_subset inv1] nv show ?thesis by simp
    next
      case False
      with inv1 nv show ?thesis by simp
    qed
  qed
next
  case (2 nodes expandedNodes st)
  then show ?case by simp
next
  case (3 nodes expandedNodes child children st)
  then show ?case by auto
qed

lemma fold_walk_inv:
  assumes "\<And>node st. node \<in> set nodes \<Longrightarrow> walk_inv nodes st \<Longrightarrow> walk_inv nodes (f node st)"
    and "set roots \<subseteq> set nodes" and "walk_inv nodes st"
  shows "walk_inv nodes (fold f roots st)"
  using assms(2,3)
proof (induction roots arbitrary: st)
  case Nil
  then show ?case by simp
next
  case (Cons r roots)
  from Cons.prems have "walk_inv nodes (f r st)" by (intro assms(1)) auto
  with Cons show ?case by simp
qed

lemma scenario_search:
  "visibleNodes scenario_nodes {} ''childa'' = Some [scenario_nodes ! 0, scenario_nodes ! 1]"
  by (simp add: visibleNodes_def scenario_nodes_def nodesById_def childrenOf_filter
      ancestorWalk.simps nodeMatches_def toLowerCase_def startsWith_def truthy_def)

lemma scenario_plain_expanded:
  "visibleNodes scenario_nodes {''HP:1''} [] = Some scenario_nodes"
  by (simp add: visibleNodes_def scenario_nodes_def childrenOf_filter)

text \<open>
  Claim C10. In plain mode and in search mode, the visible-node list that \<open>visibleNodes\<close>
  produces holds no node id twice, and each of its elements is a record of \<open>nodes\<close>.
\<close>

theorem visibleNodes_distinct_records:
  assumes "visibleNodes nodes expandedNodes debouncedSearchTerm = Some result"
  shows "distinct (map node_id result) \<and> set result \<subseteq> set nodes"
proof -
  have init: "walk_inv nodes ({}, [])" by (simp add: walk_inv_def)
  have "\<exists>v. walk_inv nodes (v, result)"
  proof (cases "debouncedSearchTerm = []")
    case True
    with assms have "result = snd (fold (addNode nodes expandedNodes) (childrenOf nodes None) ({}, []))"
      by (simp add: visibleNodes_def)
    moreover have "walk_inv nodes (fold (addNode nodes expandedNodes) (childrenOf nodes None) ({}, []))"
      by (rule fold_walk_inv [OF plain_walk_inv(1) childrenOf_subset init])
    ultimately show ?thesis by (metis prod.collapse)
  next
    case False
    with assms obtain m a where
      "result = snd (fold (addNodeAndChildren nodes m a) (childrenOf nodes None) ({}, []))"
      by (auto simp: visibleNodes_def split: option.splits)
    moreover have "walk_inv nodes (fold (addNodeAndChildren nodes m a) (childrenOf nodes None) ({}, []))"
      by (rule fold_walk_inv [OF search_walk_inv(1) childrenOf_subset init])
    ultimately show ?thesis by (metis prod.collapse)
  qed
  then show ?thesis by (auto simp: walk_inv_def)
qed


theorem visibleNodes_distinct_records_witness:
  "visibleNodes scenario_nodes {} ''childa'' = Some [scenario_nodes ! 0, scenario_nodes ! 1] \<and>
   distinct (map node_id [scenario_nodes ! 0, scenario_nodes ! 1]) \<and>
   visibleNodes scenario_nodes {''HP:1''} [] = Some scenario_nodes \<and>
   distinct (map node_id scenario_nodes)"
  using visibleNodes_distinct_records [OF scenario_search]
    visibleNodes_distinct_records [OF scenario_plain_expanded]
    scenario_search scenario_plain_expanded
  by simp

section \<open>Dangling parents\<close>

text \<open>
  Claim C6 at its failing input. The record \<open>HP:5\<close> names the parent \<open>HP:999\<close>, which is
  not in the record set. \<open>nodesByParent\<close> files it under the key \<open>HP:999\<close>: nothing is
  stored under \<open>null\<close>, and the plain-mode list is empty. (The sibling loader counts the
  same record among its roots, see \<open>dangling_parent_sibling_root\<close> below.)
\<close>

theorem dangling_parent_not_root:
  "parent_id (dangling_nodes ! 0) = Some ''HP:999'' \<and>
   nodesById dangling_nodes ''HP:999'' = None \<and>
   childrenOf dangling_nodes None = [] \<and>
   childrenOf dangling_nodes (Some ''HP:999'') = [dangling_nodes ! 0] \<and>
   visibleNodes dangling_nodes {} [] = Some []"
  by (simp add: visibleNodes_def dangling_nodes_def childrenOf_filter nodesById_def)

lemma dangling_parent_sibling_root:
  "loadChunkedData_rootNodes dangling_nodes = [dangling_nodes ! 0]"
  by (simp add: dangling_nodes_def nodesById_def loadChunkedData_rootNodes_def truthy_def)

text \<open>
  Claim C2 at its failing input. The search term \<open>leaf\<close> matches the record \<open>HP:6\<close>, whose
  parent \<open>HP:5\<close> is a record of the set; the search-mode list holds neither of them,
  because \<open>HP:5\<close> is not reachable from \<open>nodesByParent.get(null)\<close>.
\<close>

theorem dangling_search_hides_ancestor:
  "nodeMatches (toLowerCase ''leaf'') (dangling_nodes ! 1) \<and>
   parent_id (dangling_nodes ! 1) = Some (node_id (dangling_nodes ! 0)) \<and>
   dangling_nodes ! 0 \<in> set dangling_nodes \<and>
   visibleNodes dangling_nodes {} ''leaf'' = Some []"
  by (simp add: visibleNodes_def dangling_nodes_def nodesById_def childrenOf_filter
      ancestorWalk.simps nodeMatches_def toLowerCase_def startsWith_def truthy_def)

section \<open>Parent cycles\<close>

text \<open>
  On a set of records that is closed under the parent lookup and has no record without a
  parent, the ancestor walk never returns.
\<close>

lemma ancestorWalk_diverges:
  assumes closed: "\<And>n. n \<in> S \<Longrightarrow> truthy (parent_id n) \<and> (\<exists>p \<in> S. byId (the (parent_id n)) = Some p)"
    and "n \<in> S"
  shows "ancestorWalk byId n acc = None"
proof (rule ccontr)
  assume "ancestorWalk byId n acc \<noteq> None"
  then obtain y where y: "ancestorWalk byId n acc = Some y" by auto
  have "byId = byId \<longrightarrow> n \<notin> S"
  proof (rule ancestorWalk.raw_induct [where P = "\<lambda>b c a y. b = byId \<longrightarrow> c \<notin> S", OF _ y], goal_cases)
    case (1 f b c a z)
    show ?case
    proof (intro impI notI)
      assume b: "b = byId" and c: "c \<in> S"
      from closed [OF c] obtain p where p: "truthy (parent_id c)" "p \<in> S"
        "byId (the (parent_id c)) = Some p" by blast
      with 1(2) b have "f byId p (insert (the (parent_id c)) a) = Some z" by simp
      from 1(1) [OF this] p(2) show False by simp
    qed
  qed
  with assms(2) show False by simp
qed

lemma cyclic_walk: "ancestorWalk (nodesById cyclic_nodes) (cyclic_nodes ! 0) acc = None"
  by (rule ancestorWalk_diverges [where S = "set cyclic_nodes"])
     (auto simp: cyclic_nodes_def nodesById_def truthy_def)

lemma cyclic_descendants: "getDescendants cyclic_nodes ''A'' = [''B'']"
  by (simp add: getDescendants_def getDescendants_loop.simps childrenOf_filter cyclic_nodes_def Let_def)

text \<open>
  Claim C5 at its failing input. On two records that are each other's parent,
  \<open>getDescendants\<close> returns, but the ancestor walk started by a search term that matches
  one of them never does: neither the search-mode list nor the auto-expand set is
  produced.
\<close>

theorem cyclic_search_never_returns:
  "getDescendants cyclic_nodes ''A'' = [''B''] \<and>
   ancestorWalk (nodesById cyclic_nodes) (cyclic_nodes ! 0) {} = None \<and>
   visibleNodes cyclic_nodes {} ''first'' = None \<and>
   autoExpand cyclic_nodes ''first'' = None"
  using cyclic_walk cyclic_descendants
  by (simp add: visibleNodes_def autoExpand_def cyclic_nodes_def
      nodeMatches_def toLowerCase_def startsWith_def)

section \<open>Traversals on acyclic record sets\<close>

text \<open>
  Plain mode always produces its list. When the parent links strictly decrease some rank,
  the ancestor walk returns from every record, and with it the search pass: both the
  visible-node list and the auto-expand set are produced.
\<close>

lemma visibleNodes_plain_returns:
  "\<exists>result. visibleNodes nodes expandedNodes [] = Some result"
  by (simp add: visibleNodes_def)

lemma ancestorWalk_returns:
  assumes step: "\<And>c p. c \<in> S \<Longrightarrow> truthy (parent_id c) \<Longrightarrow> byId (the (parent_id c)) = Some p
      \<Longrightarrow> p \<in> S \<and> rank p < (rank c :: nat)"
    and "n \<in> S"
  shows "\<exists>A'. ancestorWalk byId n A = Some A'"
  using assms(2)
proof (induction "rank n" arbitrary: n A rule: less_induct)
  case less
  show ?case
  proof (cases "truthy (parent_id n)")
    case False
    then show ?thesis by (subst ancestorWalk.simps) simp
  next
    case t: True
    show ?thesis
    proof (cases "byId (the (parent_id n))")
      case None
      with t show ?thesis by (subst ancestorWalk.simps) simp
    next
      case (Some p)
      from step [OF less.prems t Some] have p: "p \<in> S" "rank p < rank n" by auto
      from less.hyps [OF p(2) p(1)] obtain A' where
        "ancestorWalk byId p (insert (the (parent_id n)) A) = Some A'" by blast
      with t Some show ?thesis by (subst ancestorWalk.simps) simp
    qed
  qed
qed

lemma findMatching_returns:
  assumes "\<And>n A. n \<in> set ns \<Longrightarrow> \<exists>A'. ancestorWalk byId n A = Some A'"
  shows "\<exists>r. findMatching byId searchLower ns (M, A) = Some r"
  using assms
proof (induction ns arbitrary: M A)
  case Nil
  then show ?case by simp
next
  case (Cons n ns)
  from Cons.prems [of n A] obtain A' where A': "ancestorWalk byId n A = Some A'" by auto
  from Cons.IH [of _ A'] Cons.IH [of _ A] Cons.prems A' show ?case by auto
qed

lemma expandMatches_returns:
  assumes "\<And>n A. n \<in> set ns \<Longrightarrow> \<exists>A'. ancestorWalk byId n A = Some A'"
  shows "\<exists>r. expandMatches byId searchLower ns M = Some r"
  using assms
proof (induction ns arbitrary: M)
  case Nil
  then show ?case by simp
next
  case (Cons n ns)
  from Cons.prems [of n M] obtain M' where M': "ancestorWalk byId n M = Some M'" by auto
  from Cons.IH [of "insert (node_id n) M'"] Cons.IH [of M] Cons.prems M' show ?case by auto
qed

lemma traversals_return_acyclic:
  assumes "\<And>c p. c \<in> set nodes \<Longrightarrow> truthy (parent_id c)
      \<Longrightarrow> nodesById nodes (the (parent_id c)) = Some p \<Longrightarrow> rank p < (rank c :: nat)"
  shows "\<exists>result. visibleNodes nodes expandedNodes debouncedSearchTerm = Some result"
    and "\<exists>matches. autoExpand nodes debouncedSearchTerm = Some matches"
proof -
  have walk: "\<exists>A'. ancestorWalk (nodesById nodes) n A = Some A'" if "n \<in> set nodes" for n A
    using assms nodesById_in_set that
    by (intro ancestorWalk_returns [where S = "set nodes" and rank = rank]) blast+
  show "\<exists>result. visibleNodes nodes expandedNodes debouncedSearchTerm = Some result"
    using findMatching_returns [of nodes "nodesById nodes" "toLowerCase debouncedSearchTerm" "{}" "{}"] walk
    by (auto simp: visibleNodes_def)
  show "\<exists>matches. autoExpand nodes debouncedSearchTerm = Some matches"
    using expandMatches_returns [of nodes "nodesById nodes" "toLowerCase debouncedSearchTerm" "{}"] walk
    by (auto simp: autoExpand_def)
qed

section \<open>Search mode on a well-formed forest\<close>

text \<open>
  A well-formed forest: the ids are pairwise different, and every parent reference is
  \<open>null\<close> or the non-empty id of a record of the set that has a smaller rank (so no
  reference dangles and no chain of parents comes back to its start).
\<close>

definition forest :: "HPONode list \<Rightarrow> (HPONode \<Rightarrow> nat) \<Rightarrow> bool" where
  "forest nodes rank =
     (distinct (map node_id nodes) \<and>
      (\<forall>n \<in> set nodes. case parent_id n of
          None \<Rightarrow> True
        | Some i \<Rightarrow> i \<noteq> [] \<and> (\<exists>p \<in> set nodes. node_id p = i \<and> rank p < rank n)))"

text \<open>
  Three invariants of the search-mode traversal, for the set \<open>inc\<close> of included ids: a
  visited record that is included has been emitted; every emitted record that is not
  pending (its own \<open>forEach\<close> still running) has all its included children visited; only
  included records are emitted.
\<close>

definition included_emitted :: "HPONode list \<Rightarrow> string set \<Rightarrow> string set \<times> HPONode list \<Rightarrow> bool" where
  "included_emitted nodes inc st =
     (\<forall>x \<in> set nodes. node_id x \<in> fst st \<and> node_id x \<in> inc \<longrightarrow> x \<in> set (snd st))"

definition children_visited ::
  "HPONode list \<Rightarrow> string set \<Rightarrow> string set \<times> HPONode list \<Rightarrow> HPONode set \<Rightarrow> bool" where
  "children_visited nodes inc st pending =
     (\<forall>x \<in> set (snd st) - pending. \<forall>c \<in> set (childrenOf nodes (Some (node_id x))).
         node_id c \<in> inc \<longrightarrow> node_id c \<in> fst st)"

definition only_included :: "string set \<Rightarrow> string set \<times> HPONode list \<Rightarrow> bool" where
  "only_included inc st = (node_id ` set (snd st) \<subseteq> inc)"

lemma distinct_ids_eq:
  "distinct (map node_id nodes) \<Longrightarrow> x \<in> set nodes \<Longrightarrow> y \<in> set nodes \<Longrightarrow> node_id x = node_id y \<Longrightarrow> x = y"
  by (meson distinct_map inj_onD)

lemma search_walk_complete:
  "distinct (map node_id nodes) \<Longrightarrow> node \<in> set nodes \<Longrightarrow> included_emitted nodes (M \<union> A) st
     \<Longrightarrow> children_visited nodes (M \<union> A) st pending \<Longrightarrow> only_included (M \<union> A) st
     \<Longrightarrow> included_emitted nodes (M \<union> A) (addNodeAndChildren nodes M A node st) \<and>
         children_visited nodes (M \<union> A) (addNodeAndChildren nodes M A node st) pending \<and>
         only_included (M \<union> A) (addNodeAndChildren nodes M A node st) \<and>
         fst st \<subseteq> fst (addNodeAndChildren nodes M A node st) \<and>
         node_id node \<in> fst (addNodeAndChildren nodes M A node st)"
  "distinct (map node_id nodes) \<Longrightarrow> set children \<subseteq> set nodes \<Longrightarrow> included_emitted nodes (M \<union> A) st
     \<Longrightarrow> children_visited nodes (M \<union> A) st pending \<Longrightarrow> only_included (M \<union> A) st
     \<Longrightarrow> included_emitted nodes (M \<union> A) (addIncludedChildren nodes M A children st) \<and>
         children_visited nodes (M \<union> A) (addIncludedChildren nodes M A children st) pending \<and>
         only_included (M \<union> A) (addIncludedChildren nodes M A children st) \<and>
         fst st \<subseteq> fst (addIncludedChildren nodes M A children st) \<and>
         (\<forall>c \<in> set children. node_id c \<in> M \<union> A
            \<longrightarrow> node_id c \<in> fst (addIncludedChildren nodes M A children st))"
proof (induction nodes M A node st and nodes M A children st arbitrary: pending and pending
    rule: addNodeAndChildren_addIncludedChildren.induct)
  case (1 nodes M A node visited result)
  note d = "1.prems"(1) and mem = "1.prems"(2) and ie = "1.prems"(3) and cv = "1.prems"(4)
    and oi = "1.prems"(5)
  show ?case
  proof (cases "node_id node \<in> visited")
    case True
    with "1.prems" show ?thesis by simp
  next
    case nv: False
    show ?thesis
    proof (cases "node_id node \<in> M \<or> node_id node \<in> A")
      case inc: True
      let ?st1 = "(insert (node_id node) visited, result @ [node])"
      let ?st2 = "addIncludedChildren nodes M A (childrenOf nodes (Some (node_id node))) ?st1"
      have ie1: "included_emitted nodes (M \<union> A) ?st1"
        using ie mem d by (auto simp: included_emitted_def dest: distinct_ids_eq)
      have cv1: "children_visited nodes (M \<union> A) ?st1 (insert node pending)"
        using cv by (auto simp: children_visited_def)
      have oi1: "only_included (M \<union> A) ?st1"
        using oi inc by (auto simp: only_included_def)
      from "1.IH" [OF nv inc d childrenOf_subset ie1 cv1 oi1]
      have post: "included_emitted nodes (M \<union> A) ?st2"
        "children_visited nodes (M \<union> A) ?st2 (insert node pending)"
        "only_included (M \<union> A) ?st2"
        "fst ?st1 \<subseteq> fst ?st2"
        "\<forall>c \<in> set (childrenOf nodes (Some (node_id node))). node_id c \<in> M \<union> A \<longrightarrow> node_id c \<in> fst ?st2"
        by blast+
      have "children_visited nodes (M \<union> A) ?st2 pending"
        using post(2,5) unfolding children_visited_def by blast
      moreover have "addNodeAndChildren nodes M A node (visited, result) = ?st2"
        using nv inc by simp
      ultimately show ?thesis using post by auto
    next
      case ninc: False
      let ?st1 = "(insert (node_id node) visited, result)"
      have "included_emitted nodes (M \<union> A) ?st1"
        using ie mem d ninc by (auto simp: included_emitted_def dest: distinct_ids_eq)
      moreover have "children_visited nodes (M \<union> A) ?st1 pending"
        using cv by (auto simp: children_visited_def)
      moreover have "only_included (M \<union> A) ?st1"
        using oi by (auto simp: only_included_def)
      moreover have "addNodeAndChildren nodes M A node (visited, result) = ?st1"
        using nv ninc by simp
      ultimately show ?thesis by auto
    qed
  qed
next
  case (2 nodes M A st)
  then show ?case by simp
next
  case (3 nodes M A child children st)
  note d = "3.prems"(1) and sub = "3.prems"(2) and ie = "3.prems"(3) and cv = "3.prems"(4)
    and oi = "3.prems"(5)
  let ?inc = "node_id child \<in> M \<or> node_id child \<in> A"
  let ?st1 = "if ?inc then addNodeAndChildren nodes M A child st else st"
  let ?st2 = "addIncludedChildren nodes M A children ?st1"
  have mem: "child \<in> set nodes" and sub': "set children \<subseteq> set nodes"
    using sub by auto
  have p1: "included_emitted nodes (M \<union> A) ?st1 \<and> children_visited nodes (M \<union> A) ?st1 pending
      \<and> only_included (M \<union> A) ?st1 \<and> fst st \<subseteq> fst ?st1 \<and> (?inc \<longrightarrow> node_id child \<in> fst ?st1)"
  proof (cases ?inc)
    case True
    from "3.IH"(1) [OF True d mem ie cv oi] True show ?thesis by simp
  next
    case False
    with ie cv oi show ?thesis by simp
  qed
  from "3.IH"(2) [OF d sub'] p1
  have p2: "included_emitted nodes (M \<union> A) ?st2" "children_visited nodes (M \<union> A) ?st2 pending"
    "only_included (M \<union> A) ?st2" "fst ?st1 \<subseteq> fst ?st2"
    "\<forall>c \<in> set children. node_id c \<in> M \<union> A \<longrightarrow> node_id c \<in> fst ?st2"
    by blast+
  have "fst st \<subseteq> fst ?st2" using p1 p2(4) by blast
  moreover have "\<forall>c \<in> set (child # children). node_id c \<in> M \<union> A \<longrightarrow> node_id c \<in> fst ?st2"
    using p1 p2(4,5) by auto
  moreover have "addIncludedChildren nodes M A (child # children) st = ?st2" by simp
  ultimately show ?case using p2(1,2,3) by presburger
qed

lemma fold_search_complete:
  assumes d: "distinct (map node_id nodes)"
  shows "set roots \<subseteq> set nodes \<Longrightarrow> included_emitted nodes (M \<union> A) st
     \<Longrightarrow> children_visited nodes (M \<union> A) st {} \<Longrightarrow> only_included (M \<union> A) st
     \<Longrightarrow> included_emitted nodes (M \<union> A) (fold (addNodeAndChildren nodes M A) roots st) \<and>
         children_visited nodes (M \<union> A) (fold (addNodeAndChildren nodes M A) roots st) {} \<and>
         only_included (M \<union> A) (fold (addNodeAndChildren nodes M A) roots st) \<and>
         fst st \<subseteq> fst (fold (addNodeAndChildren nodes M A) roots st) \<and>
         node_id ` set roots \<subseteq> fst (fold (addNodeAndChildren nodes M A) roots st)"
proof (induction roots arbitrary: st)
  case Nil
  then show ?case by simp
next
  case (Cons r roots)
  let ?st1 = "addNodeAndChildren nodes M A r st"
  from Cons.prems have r: "r \<in> set nodes" and sub: "set roots \<subseteq> set nodes" by auto
  from search_walk_complete(1) [OF d r Cons.prems(2,3,4)]
  have p1: "included_emitted nodes (M \<union> A) ?st1" "children_visited nodes (M \<union> A) ?st1 {}"
    "only_included (M \<union> A) ?st1" "fst st \<subseteq> fst ?st1" "node_id r \<in> fst ?st1"
    by blast+
  from Cons.IH [OF sub p1(1,2,3)] p1(4,5) show ?case by auto
qed

lemma childRel_iff:
  "(p, c) \<in> childRel nodes \<longleftrightarrow> (\<exists>n \<in> set nodes. node_id n = c \<and> parent_id n = Some p)"
  by (auto simp: childRel_def childrenOf_filter)

lemma childRel_parent:
  assumes "distinct (map node_id nodes)" and "n \<in> set nodes"
  shows "(p, node_id n) \<in> childRel nodes \<longleftrightarrow> parent_id n = Some p"
  using assms by (auto simp: childRel_iff dest: distinct_ids_eq)

lemma ancestors_root:
  assumes "distinct (map node_id nodes)" and "n \<in> set nodes" and "parent_id n = None"
  shows "{a. (a, node_id n) \<in> (childRel nodes)\<^sup>+} = {}"
proof -
  have "\<not> (a, node_id n) \<in> (childRel nodes)\<^sup>+" for a
  proof
    assume "(a, node_id n) \<in> (childRel nodes)\<^sup>+"
    then obtain b where "(b, node_id n) \<in> childRel nodes"
      by (auto elim: tranclE)
    with assms show False by (simp add: childRel_parent)
  qed
  then show ?thesis by simp
qed

lemma ancestors_step:
  assumes "distinct (map node_id nodes)" and "n \<in> set nodes" and "parent_id n = Some i"
  shows "{a. (a, node_id n) \<in> (childRel nodes)\<^sup>+} = insert i {a. (a, i) \<in> (childRel nodes)\<^sup>+}"
proof -
  have last: "(b, node_id n) \<in> childRel nodes \<longleftrightarrow> b = i" for b
    using assms childRel_parent [of nodes n b] by auto
  have "(a, node_id n) \<in> (childRel nodes)\<^sup>+ \<longleftrightarrow> a = i \<or> (a, i) \<in> (childRel nodes)\<^sup>+" for a
  proof
    assume "(a, node_id n) \<in> (childRel nodes)\<^sup>+"
    then show "a = i \<or> (a, i) \<in> (childRel nodes)\<^sup>+"
      by (cases rule: tranclE) (auto simp: last)
  next
    assume "a = i \<or> (a, i) \<in> (childRel nodes)\<^sup>+"
    moreover have "(i, node_id n) \<in> childRel nodes" by (simp add: last)
    ultimately show "(a, node_id n) \<in> (childRel nodes)\<^sup>+" by auto
  qed
  then show ?thesis by auto
qed

lemma nodesById_distinct:
  assumes "distinct (map node_id nodes)" and "p \<in> set nodes"
  shows "nodesById nodes (node_id p) = Some p"
proof -
  have "find (\<lambda>n. node_id n = node_id p) nodes \<noteq> None"
    using assms(2) by (auto simp: find_None_iff)
  then obtain x where x: "find (\<lambda>n. node_id n = node_id p) nodes = Some x" by auto
  from find_Some_in_set [OF this] assms have "x = p"
    by (auto dest: distinct_ids_eq)
  with x assms(1) show ?thesis by (simp add: nodesById_find)
qed

lemma forest_parent:
  assumes "forest nodes rank" and "n \<in> set nodes" and "parent_id n = Some i"
  obtains p where "p \<in> set nodes" "node_id p = i" "rank p < rank n" "i \<noteq> []"
    "nodesById nodes i = Some p"
proof -
  from assms(1,2) have "case parent_id n of None \<Rightarrow> True
      | Some i \<Rightarrow> i \<noteq> [] \<and> (\<exists>p \<in> set nodes. node_id p = i \<and> rank p < rank n)"
    unfolding forest_def by blast
  with assms(3) obtain p where p: "i \<noteq> []" "p \<in> set nodes" "node_id p = i" "rank p < rank n"
    by auto
  moreover from assms(1) p have "nodesById nodes i = Some p"
    using nodesById_distinct [of nodes p] by (simp add: forest_def)
  ultimately show ?thesis using that by blast
qed

lemma ancestorWalk_forest:
  assumes f: "forest nodes rank" and "n \<in> set nodes"
  shows "ancestorWalk (nodesById nodes) n A = Some (A \<union> {a. (a, node_id n) \<in> (childRel nodes)\<^sup>+})"
  using assms(2)
proof (induction "rank n" arbitrary: n A rule: less_induct)
  case less
  from f have d: "distinct (map node_id nodes)" by (simp add: forest_def)
  show ?case
  proof (cases "parent_id n")
    case None
    then show ?thesis
      using ancestors_root [OF d less.prems None]
      by (subst ancestorWalk.simps) (simp add: truthy_def)
  next
    case (Some i)
    from forest_parent [OF f less.prems Some] obtain p where
      p: "p \<in> set nodes" "node_id p = i" "rank p < rank n" "i \<noteq> []" "nodesById nodes i = Some p"
      by blast
    have "ancestorWalk (nodesById nodes) n A = ancestorWalk (nodesById nodes) p (insert i A)"
      using Some p by (subst ancestorWalk.simps) (simp add: truthy_def)
    also have "\<dots> = Some (insert i A \<union> {a. (a, i) \<in> (childRel nodes)\<^sup>+})"
      using less.hyps [OF p(3) p(1)] p(2) by simp
    also have "insert i A \<union> {a. (a, i) \<in> (childRel nodes)\<^sup>+}
        = A \<union> {a. (a, node_id n) \<in> (childRel nodes)\<^sup>+}"
      using ancestors_step [OF d less.prems Some] by auto
    finally show ?thesis .
  qed
qed

lemma findMatching_forest:
  assumes f: "forest nodes rank"
  shows "set ns \<subseteq> set nodes \<Longrightarrow>
    findMatching (nodesById nodes) sl ns (M, A) =
      Some (M \<union> node_id ` {n \<in> set ns. nodeMatches sl n},
            A \<union> {a. \<exists>m \<in> set ns. nodeMatches sl m \<and> (a, node_id m) \<in> (childRel nodes)\<^sup>+})"
proof (induction ns arbitrary: M A)
  case Nil
  then show ?case by simp
next
  case (Cons n ns)
  from Cons.prems have n: "n \<in> set nodes" and sub: "set ns \<subseteq> set nodes" by auto
  show ?case
  proof (cases "nodeMatches sl n")
    case True
    have step: "findMatching (nodesById nodes) sl (n # ns) (M, A) =
        findMatching (nodesById nodes) sl ns
          (insert (node_id n) M, A \<union> {a. (a, node_id n) \<in> (childRel nodes)\<^sup>+})"
      using True ancestorWalk_forest [OF f n] by simp
    have e1: "insert (node_id n) M \<union> node_id ` {n \<in> set ns. nodeMatches sl n}
        = M \<union> node_id ` {m \<in> set (n # ns). nodeMatches sl m}"
      using True by auto
    have e2: "(A \<union> {a. (a, node_id n) \<in> (childRel nodes)\<^sup>+})
          \<union> {a. \<exists>m \<in> set ns. nodeMatches sl m \<and> (a, node_id m) \<in> (childRel nodes)\<^sup>+}
        = A \<union> {a. \<exists>m \<in> set (n # ns). nodeMatches sl m \<and> (a, node_id m) \<in> (childRel nodes)\<^sup>+}"
      using True by auto
    show ?thesis
      by (simp only: step Cons.IH [OF sub] e1 e2)
  next
    case False
    have e1: "{m \<in> set (n # ns). nodeMatches sl m} = {m \<in> set ns. nodeMatches sl m}"
      using False by auto
    have e2: "{a. \<exists>m \<in> set (n # ns). nodeMatches sl m \<and> (a, node_id m) \<in> (childRel nodes)\<^sup>+}
        = {a. \<exists>m \<in> set ns. nodeMatches sl m \<and> (a, node_id m) \<in> (childRel nodes)\<^sup>+}"
      using False by auto
    have step: "findMatching (nodesById nodes) sl (n # ns) (M, A) =
        findMatching (nodesById nodes) sl ns (M, A)"
      using False by simp
    show ?thesis
      by (simp only: step Cons.IH [OF sub] e1 e2)
  qed
qed

text \<open>
  On a well-formed forest the search-mode list holds exactly the matching records and the
  proper ancestors of matching records.
\<close>

lemma search_visible_forest:
  assumes f: "forest nodes rank" and t: "debouncedSearchTerm \<noteq> []"
  shows "\<exists>result. visibleNodes nodes expandedNodes debouncedSearchTerm = Some result \<and>
    set result =
      {n \<in> set nodes. nodeMatches (toLowerCase debouncedSearchTerm) n \<or>
         (\<exists>m \<in> set nodes. nodeMatches (toLowerCase debouncedSearchTerm) m \<and>
            (node_id n, node_id m) \<in> (childRel nodes)\<^sup>+)}"
proof -
  define sl where "sl = toLowerCase debouncedSearchTerm"
  define M where "M = node_id ` {n \<in> set nodes. nodeMatches sl n}"
  define A where "A = {a. \<exists>m \<in> set nodes. nodeMatches sl m \<and> (a, node_id m) \<in> (childRel nodes)\<^sup>+}"
  define st where "st = fold (addNodeAndChildren nodes M A) (childrenOf nodes None) ({}, [])"
  from f have d: "distinct (map node_id nodes)" by (simp add: forest_def)
  have fm: "findMatching (nodesById nodes) sl nodes ({}, {}) = Some (M, A)"
    using findMatching_forest [OF f subset_refl, of sl "{}" "{}"] by (simp add: M_def A_def)
  have vis: "visibleNodes nodes expandedNodes debouncedSearchTerm = Some (snd st)"
    using t fm by (simp add: visibleNodes_def sl_def [symmetric] st_def)
  have init: "walk_inv nodes ({}, [])" by (simp add: walk_inv_def)
  have "walk_inv nodes st"
    unfolding st_def by (rule fold_walk_inv [OF search_walk_inv(1) childrenOf_subset init])
  then have in_nodes: "set (snd st) \<subseteq> set nodes" by (simp add: walk_inv_def)
  have i1: "included_emitted nodes (M \<union> A) ({}, [])" by (simp add: included_emitted_def)
  have i2: "children_visited nodes (M \<union> A) ({}, []) {}" by (simp add: children_visited_def)
  have i3: "only_included (M \<union> A) ({}, [])" by (simp add: only_included_def)
  from fold_search_complete [OF d childrenOf_subset [of nodes None] i1 i2 i3]
  have post: "included_emitted nodes (M \<union> A) st" "children_visited nodes (M \<union> A) st {}"
    "only_included (M \<union> A) st" "node_id ` set (childrenOf nodes None) \<subseteq> fst st"
    unfolding st_def by blast+
  have parent_inc: "i \<in> A" if n: "n \<in> set nodes" and inc: "node_id n \<in> M \<union> A"
    and par: "parent_id n = Some i" for n i
  proof -
    have edge: "(i, node_id n) \<in> childRel nodes"
      using n par childRel_iff [of i "node_id n" nodes] by blast
    from inc show ?thesis
    proof
      assume "node_id n \<in> M"
      then obtain m where m: "m \<in> set nodes" "nodeMatches sl m" "node_id m = node_id n"
        unfolding M_def by auto
      from edge m(3) have "(i, node_id m) \<in> (childRel nodes)\<^sup>+" by simp
      with m(1,2) show ?thesis unfolding A_def by blast
    next
      assume "node_id n \<in> A"
      then obtain m where m: "m \<in> set nodes" "nodeMatches sl m"
        "(node_id n, node_id m) \<in> (childRel nodes)\<^sup>+" unfolding A_def by blast
      from edge m(3) have "(i, node_id m) \<in> (childRel nodes)\<^sup>+"
        by (rule trancl_into_trancl2)
      with m(1,2) show ?thesis unfolding A_def by blast
    qed
  qed
  have emitted: "n \<in> set (snd st)" if "n \<in> set nodes" and "node_id n \<in> M \<union> A" for n
    using that
  proof (induction "rank n" arbitrary: n rule: less_induct)
    case less
    have "node_id n \<in> fst st"
    proof (cases "parent_id n")
      case None
      with less.prems(1) have "n \<in> set (childrenOf nodes None)"
        by (simp add: childrenOf_filter)
      with post(4) show ?thesis by blast
    next
      case (Some i)
      from forest_parent [OF f less.prems(1) Some] obtain p where
        p: "p \<in> set nodes" "node_id p = i" "rank p < rank n" by blast
      have "i \<in> A" by (rule parent_inc [OF less.prems Some])
      with p(2) have "node_id p \<in> M \<union> A" by simp
      from less.hyps [OF p(3) p(1) this] have "p \<in> set (snd st)" .
      moreover have "n \<in> set (childrenOf nodes (Some (node_id p)))"
        using less.prems(1) Some p(2) by (simp add: childrenOf_filter)
      ultimately show ?thesis
        using post(2) less.prems(2) unfolding children_visited_def by blast
    qed
    with post(1) less.prems show ?case
      unfolding included_emitted_def by blast
  qed
  have only: "node_id n \<in> M \<union> A" if "n \<in> set (snd st)" for n
    using post(3) that unfolding only_included_def by blast
  have M_iff: "node_id n \<in> M \<longleftrightarrow> nodeMatches sl n" if "n \<in> set nodes" for n
  proof
    assume "node_id n \<in> M"
    then obtain m where "m \<in> set nodes" "nodeMatches sl m" "node_id m = node_id n"
      unfolding M_def by auto
    with distinct_ids_eq [OF d this(1) that] show "nodeMatches sl n" by simp
  next
    assume "nodeMatches sl n"
    with that show "node_id n \<in> M" unfolding M_def by blast
  qed
  have A_iff: "node_id n \<in> A \<longleftrightarrow>
      (\<exists>m \<in> set nodes. nodeMatches sl m \<and> (node_id n, node_id m) \<in> (childRel nodes)\<^sup>+)" for n
    unfolding A_def by simp
  have "set (snd st) = {n \<in> set nodes. node_id n \<in> M \<union> A}"
    using emitted only in_nodes by blast
  also have "\<dots> = {n \<in> set nodes. nodeMatches sl n \<or>
      (\<exists>m \<in> set nodes. nodeMatches sl m \<and> (node_id n, node_id m) \<in> (childRel nodes)\<^sup>+)}"
    using M_iff A_iff by (simp only: Un_iff) blast
  finally show ?thesis using vis unfolding sl_def by blast
qed

lemma scenario_forest:
  "forest scenario_nodes (\<lambda>n. case parent_id n of None \<Rightarrow> 0 | Some i \<Rightarrow> 1)"
  by (simp add: forest_def scenario_nodes_def)

end
